theory Spec2Isabelle
  imports Complex_Main "HOL-Library.Word" "HOL-Library.AList"
begin

section \<open>Machine integers, instants and durations\<close>

text \<open>
  Go's \<open>int64\<close> is a 64-bit word: \<open>+\<close>, \<open>-\<close> and \<open>*\<close> wrap around, comparisons
  are the signed ones (\<open>\<le>s\<close>, \<open><s\<close>), \<open>sint\<close> reads the two's complement value.
  A \<open>time.Duration\<close> is an \<open>int64\<close> count of nanoseconds.

  A \<open>time.Time\<close> is modelled as the integer count of nanoseconds since the zero
  \<open>time.Time\<close> (the value of an unset field), on one time line, without the
  monotonic reading. The \<open>time\<close> package is not part of the repository; the three
  operations the code uses are modelled after its documentation: \<open>Add\<close> adds the
  duration, \<open>Sub\<close> returns the difference, saturated to the largest or smallest
  \<open>Duration\<close> when it does not fit, \<open>After\<close> is the strict order.
\<close>

type_synonym int64 = "64 word"
type_synonym Duration = "64 word"
type_synonym Time = int

definition maxDuration :: int where
  "maxDuration = 2 ^ 63 - 1"

definition minDuration :: int where
  "minDuration = - (2 ^ 63)"

definition Time_Add :: "Time \<Rightarrow> Duration \<Rightarrow> Time" where
  "Time_Add t d = t + sint d"

definition Time_Sub :: "Time \<Rightarrow> Time \<Rightarrow> Duration" where
  "Time_Sub t u =
     (if t - u < minDuration then word_of_int minDuration
      else if maxDuration < t - u then word_of_int maxDuration
      else word_of_int (t - u))"

definition Time_After :: "Time \<Rightarrow> Time \<Rightarrow> bool" where
  "Time_After t u \<longleftrightarrow> u < t"

section \<open>The float64 arithmetic used by intervalCount\<close>

text \<open>
  \<open>intervalCount\<close> converts both durations to \<open>float64\<close>, divides there and
  converts the quotient back to \<open>int64\<close>. A \<open>float64\<close> is an IEEE 754 binary64
  value: a finite one is a rational with a 53-bit significand. Every finite value
  that the conversions and the single division of this program produce is either 0 or
  has a magnitude between \<open>2\<^sup>-\<^sup>6\<^sup>3\<close> and \<open>2\<^sup>6\<^sup>3\<close>, far inside the normal range,
  so rounding is modelled with an unbounded exponent: \<open>round53\<close> rounds a rational
  to the nearest rational with a 53-bit significand, ties to the even significand.
\<close>

datatype float64 = Finite rat | PosInf | NegInf | NaN

fun bits :: "nat \<Rightarrow> nat" where
  "bits n = (if n = 0 then 0 else Suc (bits (n div 2)))"

declare bits.simps [simp del]

definition pow2 :: "int \<Rightarrow> rat" where
  "pow2 e = (if 0 \<le> e then 2 ^ nat e else 1 / 2 ^ nat (- e))"

text \<open>The exponent \<open>e\<close> with \<open>2\<^sup>e \<le> q < 2\<^sup>e\<^sup>+\<^sup>1\<close>, for positive \<open>q\<close>.\<close>

definition binade :: "rat \<Rightarrow> int" where
  "binade q =
     (if 1 \<le> q then int (bits (nat \<lfloor>q\<rfloor>)) - 1
      else - int (bits (nat (\<lceil>1 / q\<rceil> - 1))))"

text \<open>Rounding to the nearest integer, ties to even.\<close>

definition rne :: "rat \<Rightarrow> int" where
  "rne x =
     (let f = \<lfloor>x\<rfloor>; r = x - of_int f
      in if r < 1 / 2 then f
         else if 1 / 2 < r then f + 1
         else if even f then f else f + 1)"

definition round53 :: "rat \<Rightarrow> rat" where
  "round53 q =
     (if q = 0 then 0
      else let u = pow2 (binade \<bar>q\<bar> - 52)
           in sgn q * of_int (rne (\<bar>q\<bar> / u)) * u)"

text \<open>\<open>float64(x)\<close> for an \<open>int64\<close> \<open>x\<close>.\<close>

definition float64_of_int64 :: "int64 \<Rightarrow> float64" where
  "float64_of_int64 x = Finite (round53 (of_int (sint x)))"

text \<open>\<open>math.Abs\<close>.\<close>

fun float_abs :: "float64 \<Rightarrow> float64" where
  "float_abs (Finite x) = Finite \<bar>x\<bar>"
| "float_abs PosInf = PosInf"
| "float_abs NegInf = PosInf"
| "float_abs NaN = NaN"

text \<open>
  The quotient of two \<open>float64\<close> values. A zero divisor here is always the
  conversion of the integer 0, which is \<open>+0\<close>.
\<close>

fun float_div :: "float64 \<Rightarrow> float64 \<Rightarrow> float64" where
  "float_div (Finite x) (Finite y) =
     (if y = 0 then (if x = 0 then NaN else if 0 < x then PosInf else NegInf)
      else Finite (round53 (x / y)))"
| "float_div NaN _ = NaN"
| "float_div _ NaN = NaN"
| "float_div (Finite x) _ = Finite 0"
| "float_div PosInf (Finite y) = (if y < 0 then NegInf else PosInf)"
| "float_div NegInf (Finite y) = (if y < 0 then PosInf else NegInf)"
| "float_div _ _ = NaN"

text \<open>
  \<open>int64(f)\<close> for a \<open>float64\<close> \<open>f\<close>: the fraction is discarded (truncation towards
  zero). When the value does not fit (or is infinite or not a number) the Go
  specification leaves the result to the implementation; \<open>indefinite64\<close> is the
  value that amd64 produces.
\<close>

definition indefinite64 :: int64 where
  "indefinite64 = word_of_int (- (2 ^ 63))"

definition truncate_rat :: "rat \<Rightarrow> int" where
  "truncate_rat x = (if 0 \<le> x then \<lfloor>x\<rfloor> else \<lceil>x\<rceil>)"

fun int64_of_float64 :: "float64 \<Rightarrow> int64" where
  "int64_of_float64 (Finite x) =
     (let z = truncate_rat x
      in if - (2 ^ 63) \<le> z \<and> z < 2 ^ 63 then word_of_int z else indefinite64)"
| "int64_of_float64 _ = indefinite64"

section \<open>Time-interval utilities\<close>

text \<open>
  \<open>intervalCount\<close>: \<open>delta := math.Abs(float64(end.Sub(start)))\<close>, then
  \<open>int64(delta / float64(interval))\<close>.
\<close>

definition intervalCount :: "Time \<Rightarrow> Time \<Rightarrow> Duration \<Rightarrow> int64" where
  "intervalCount start end interval =
     (let delta = float_abs (float64_of_int64 (Time_Sub end start))
      in int64_of_float64 (float_div delta (float64_of_int64 interval)))"

text \<open>
  \<open>nextAfter\<close>: the candidate \<open>start + diff * interval\<close> (the product is an
  \<open>int64\<close> product), returned if it is after \<open>end\<close>, and one interval later
  otherwise.
\<close>

definition nextAfter :: "Time \<Rightarrow> Time \<Rightarrow> Duration \<Rightarrow> Time" where
  "nextAfter start end interval =
     (let diff = intervalCount start end interval;
          md = diff * interval;
          t = Time_Add start md
      in if Time_After t end then t else Time_Add t interval)"

text \<open>The generic \<open>min\<close> of the package, at its only instance \<open>int64\<close>.\<close>

definition min_int64 :: "int64 \<Rightarrow> int64 \<Rightarrow> int64" where
  "min_int64 a b = (if a <s b then a else b)"

section \<open>Bucket\<close>

text \<open>
  The bucket's fields. The mutex is left out: every method holds the lock from its
  first to its last statement, so a call is one atomic step on the bucket's state,
  and a method is a function from the state before the call to its result and the
  state after it.
\<close>

record Bucket =
  Limit :: int64
  Burst :: int64
  Refill :: Duration
  tokens :: int64
  lastUpdate :: Time

text \<open>\<open>NewBucket\<close> leaves \<open>lastUpdate\<close> unset: the zero \<open>time.Time\<close>.\<close>

definition NewBucket :: "int64 \<Rightarrow> int64 \<Rightarrow> Duration \<Rightarrow> Bucket" where
  "NewBucket limit burst rf =
     \<lparr>Limit = limit, Burst = burst, Refill = rf, tokens = burst, lastUpdate = 0\<rparr>"

definition skipDiff :: "Bucket \<Rightarrow> int64 \<Rightarrow> Bucket" where
  "skipDiff b diff =
     (let md = diff * Refill b
      in b\<lparr>lastUpdate := Time_Add (lastUpdate b) md\<rparr>)"

definition refill :: "Bucket \<Rightarrow> Time \<Rightarrow> Bucket" where
  "refill b t =
     (if tokens b = Burst b then b\<lparr>lastUpdate := t\<rparr>
      else
        let delta = intervalCount (lastUpdate b) t (Refill b);
            b1 = skipDiff b delta;
            b2 = b1\<lparr>tokens := tokens b1 + delta * Limit b1\<rparr>
        in if Burst b2 \<le>s tokens b2
           then b2\<lparr>tokens := Burst b2, lastUpdate := t\<rparr>
           else b2)"

definition CanDrawAt :: "Bucket \<Rightarrow> Time \<Rightarrow> int64 \<Rightarrow> bool \<times> Bucket" where
  "CanDrawAt b t n = (let b1 = refill b t in (n \<le>s tokens b1, b1))"

definition DrawAt :: "Bucket \<Rightarrow> Time \<Rightarrow> int64 \<Rightarrow> bool \<times> Bucket" where
  "DrawAt b t n =
     (let b1 = refill b t
      in if tokens b1 <s n then (False, b1)
         else (True, b1\<lparr>tokens := tokens b1 - n\<rparr>))"

definition DrawMaxAt :: "Bucket \<Rightarrow> Time \<Rightarrow> int64 \<Rightarrow> int64 \<times> Bucket" where
  "DrawMaxAt b t n =
     (let b1 = refill b t;
          drawn = min_int64 n (tokens b1)
      in (drawn, b1\<lparr>tokens := tokens b1 - drawn\<rparr>))"

definition ForceDrawAt :: "Bucket \<Rightarrow> Time \<Rightarrow> int64 \<Rightarrow> int64 \<times> Bucket" where
  "ForceDrawAt b t n =
     (let b1 = refill b t;
          b2 = b1\<lparr>tokens := tokens b1 - n\<rparr>
      in (tokens b2, b2))"

definition SetTokensAt :: "Bucket \<Rightarrow> Time \<Rightarrow> int64 \<Rightarrow> Bucket" where
  "SetTokensAt b t v = (let b1 = refill b t in b1\<lparr>tokens := v\<rparr>)"

definition TokensAt :: "Bucket \<Rightarrow> Time \<Rightarrow> int64 \<times> Bucket" where
  "TokensAt b t = (let b1 = refill b t in (tokens b1, b1))"

definition RemainingAt :: "Bucket \<Rightarrow> Time \<Rightarrow> int64 \<times> Bucket" where
  "RemainingAt b t =
     (let (tk, b1) = TokensAt b t
      in if tk <s 0 then (0, b1) else (tk, b1))"

text \<open>
  Go's integer division truncates towards zero, wraps at the one quotient that does
  not fit (the smallest \<open>int64\<close> divided by \<open>-1\<close>) and panics on a zero divisor.
\<close>

datatype panic = DivideByZero

definition int64_div :: "int64 \<Rightarrow> int64 \<Rightarrow> panic + int64" where
  "int64_div a b =
     (if b = 0 then Inl DivideByZero
      else Inr (word_of_int (sgn (sint a) * sgn (sint b) * (\<bar>sint a\<bar> div \<bar>sint b\<bar>))))"

definition InferTokensAt :: "Bucket \<Rightarrow> Time \<Rightarrow> (panic + int64) \<times> Bucket" where
  "InferTokensAt b t =
     (case int64_div (Time_Sub t (lastUpdate b)) (Refill b) of
        Inl e \<Rightarrow> (Inl e, b)
      | Inr delta \<Rightarrow>
          let tk = tokens b + delta * Limit b
          in if Burst b <s tk then (Inr (Burst b), b) else (Inr tk, b))"

definition NextRefillAt :: "Bucket \<Rightarrow> Time \<Rightarrow> Time \<times> Bucket" where
  "NextRefillAt b t =
     (let b1 = refill b t in (nextAfter (lastUpdate b1) t (Refill b1), b1))"

definition ResetAt :: "Bucket \<Rightarrow> Time \<Rightarrow> Bucket" where
  "ResetAt b t = b\<lparr>tokens := Burst b, lastUpdate := t\<rparr>"

definition IsResetAt :: "Bucket \<Rightarrow> Time \<Rightarrow> bool \<times> Bucket" where
  "IsResetAt b t = (let b1 = refill b t in (tokens b1 = Burst b1, b1))"

text \<open>
  The refill reconciliation as the specification lists it, step by step, on the same
  machine integers: (1) a saturated bucket only moves \<open>lastUpdate\<close> to the query
  time; (2) otherwise \<open>delta\<close> is the interval count; (3) \<open>lastUpdate\<close> advances by
  \<open>delta * refillInterval\<close>; (4) the balance grows by \<open>delta * rate\<close>; (5) a balance
  that meets or exceeds the cap is clamped and \<open>lastUpdate\<close> is set to the query time.
\<close>

definition reconcile_spec :: "Bucket \<Rightarrow> Time \<Rightarrow> Bucket" where
  "reconcile_spec b t =
     (if tokens b = Burst b then b\<lparr>lastUpdate := t\<rparr>
      else
        let delta = intervalCount (lastUpdate b) t (Refill b);
            advanced = lastUpdate b + sint (delta * Refill b);
            balance = tokens b + delta * Limit b
        in if Burst b \<le>s balance
           then b\<lparr>tokens := Burst b, lastUpdate := t\<rparr>
           else b\<lparr>tokens := balance, lastUpdate := advanced\<rparr>)"

section \<open>BucketManager\<close>

text \<open>
  The registry maps an identity to the bucket it owns. The Go map is an association
  list with one entry per key; the order of the entries stands for the order in which
  a \<open>range\<close> loop happens to visit them. The registry's mutex is left out as the
  bucket's is. The Go map holds pointers; the list holds the buckets themselves, which
  is the same as long as no bucket is stored under two keys, as is the case for every
  bucket that \<open>getOrCreate\<close> stores. A bucket that \<open>Set\<close> stores under a second key
  would be one shared state in Go, which this list does not express.
\<close>

record BucketManager =
  bmLimit :: int64
  bmBurst :: int64
  bmRefill :: Duration
  buckets :: "(string \<times> Bucket) list"

definition New :: "int64 \<Rightarrow> int64 \<Rightarrow> Duration \<Rightarrow> BucketManager" where
  "New limit burst rf =
     \<lparr>bmLimit = limit, bmBurst = burst, bmRefill = rf, buckets = []\<rparr>"

definition get :: "BucketManager \<Rightarrow> string \<Rightarrow> Bucket option" where
  "get m key = map_of (buckets m) key"

definition set_bucket :: "BucketManager \<Rightarrow> string \<Rightarrow> Bucket \<Rightarrow> BucketManager" where
  "set_bucket m key bucket = m\<lparr>buckets := AList.update key bucket (buckets m)\<rparr>"

definition delete_bucket :: "BucketManager \<Rightarrow> string \<Rightarrow> BucketManager" where
  "delete_bucket m key = m\<lparr>buckets := AList.delete key (buckets m)\<rparr>"

definition getOrCreate :: "BucketManager \<Rightarrow> string \<Rightarrow> Bucket \<times> BucketManager" where
  "getOrCreate m key =
     (case get m key of
        Some bucket \<Rightarrow> (bucket, m)
      | None \<Rightarrow>
          let bucket = NewBucket (bmLimit m) (bmBurst m) (bmRefill m)
          in (bucket, set_bucket m key bucket))"

text \<open>
  \<open>Purge\<close> visits every entry once; \<open>bucket.IsReset()\<close> reads the clock, so the
  loop takes the clock reading made at each entry (\<open>now key\<close>, for the entry of \<open>key\<close>). A bucket that is
  reset is deleted from the map, any other stays, reconciled by the call. The
  counter \<open>removed\<close> is initialised, never assigned again, and returned.
\<close>

fun purge_loop :: "(string \<Rightarrow> Time) \<Rightarrow> (string \<times> Bucket) list \<Rightarrow> (string \<times> Bucket) list" where
  "purge_loop now [] = []"
| "purge_loop now ((key, bucket) # rest) =
     (case IsResetAt bucket (now key) of
        (True, _) \<Rightarrow> purge_loop now rest
      | (False, bucket1) \<Rightarrow> (key, bucket1) # purge_loop now rest)"

definition Purge :: "(string \<Rightarrow> Time) \<Rightarrow> BucketManager \<Rightarrow> int \<times> BucketManager" where
  "Purge now m =
     (let removed = 0
      in (removed, m\<lparr>buckets := purge_loop now (buckets m)\<rparr>))"

section \<open>Rounding to 53 bits: bounds and exactness\<close>

text \<open>
  The facts about the rounding that the rest depends on: the binade brackets a
  positive rational, rounding errs by at most half a unit in the last place and never
  crosses an integer that is representable, and an integer below \<open>2\<^sup>5\<^sup>3\<close> is its own
  rounding. With them, the rounded quotient of a duration below \<open>2\<^sup>5\<^sup>3\<close> nanoseconds
  by a positive interval truncates to the integer quotient.
\<close>

lemma bits_pos: "0 < n \<Longrightarrow> 0 < bits n"
  by (subst bits.simps) simp

lemma bits_upper: "n < 2 ^ bits n"
proof (induction n rule: bits.induct)
  case (1 n)
  show ?case
  proof (cases "n = 0")
    case True
    then show ?thesis by (simp add: bits.simps)
  next
    case False
    with 1 have "n div 2 < 2 ^ bits (n div 2)" by simp
    then have "n < 2 * 2 ^ bits (n div 2)" by linarith
    with False show ?thesis by (subst bits.simps) simp
  qed
qed

lemma bits_lower: "0 < n \<Longrightarrow> 2 ^ (bits n - 1) \<le> n"
proof (induction n rule: bits.induct)
  case (1 n)
  show ?case
  proof (cases "n div 2 = 0")
    case True
    with 1(2) have "n = 1" by linarith
    then show ?thesis by (simp add: bits.simps)
  next
    case False
    with 1 have ih: "2 ^ (bits (n div 2) - 1) \<le> n div 2" by simp
    from False have "0 < bits (n div 2)" by (simp add: bits_pos)
    then have "(2::nat) ^ bits (n div 2) = 2 * 2 ^ (bits (n div 2) - 1)"
      by (cases "bits (n div 2)") simp_all
    with ih have "2 ^ bits (n div 2) \<le> n" by linarith
    with 1(2) show ?thesis by (subst bits.simps) simp
  qed
qed

lemma pow2_powi: "pow2 e = 2 powi e"
  by (simp add: pow2_def power_int_def inverse_eq_divide power_one_over)

lemma pow2_pos: "0 < pow2 e"
  by (simp add: pow2_powi)

lemma pow2_add: "pow2 (a + b) = pow2 a * pow2 b"
  by (simp add: pow2_powi power_int_add)

lemma pow2_nat: "pow2 (int n) = 2 ^ n"
  by (simp add: pow2_powi)

lemma pow2_mono: "a \<le> b \<Longrightarrow> pow2 a \<le> pow2 b"
  by (simp add: pow2_powi power_int_increasing)

lemma binade_lower: "0 < q \<Longrightarrow> pow2 (binade q) \<le> q"
proof (cases "1 \<le> q")
  case True
  define n where "n = nat \<lfloor>q\<rfloor>"
  from True have n: "0 < n" by (simp add: n_def)
  then have "0 < bits n" by (rule bits_pos)
  then have e: "binade q = int (bits n - 1)"
    using True by (simp add: binade_def n_def)
  have "(2::nat) ^ (bits n - 1) \<le> n" using n by (rule bits_lower)
  then have "(of_nat (2 ^ (bits n - 1)) :: rat) \<le> of_nat n"
    by (simp only: of_nat_le_iff)
  also have "(of_nat n :: rat) = of_int \<lfloor>q\<rfloor>" using True by (simp add: n_def)
  also have "\<dots> \<le> q" by simp
  finally show ?thesis by (simp add: e pow2_nat)
next
  case False
  assume q: "0 < q"
  define n where "n = nat (\<lceil>1 / q\<rceil> - 1)"
  from False q have "1 < 1 / q" by simp
  then have c: "2 \<le> \<lceil>1 / q\<rceil>" by linarith
  have e: "binade q = - int (bits n)" using False by (simp add: binade_def n_def)
  have "n < 2 ^ bits n" by (rule bits_upper)
  then have "int n < 2 ^ bits n" by (metis of_nat_less_iff of_nat_numeral of_nat_power)
  moreover have "int n = \<lceil>1 / q\<rceil> - 1" using c unfolding n_def by linarith
  ultimately have "\<lceil>1 / q\<rceil> \<le> 2 ^ bits n" by linarith
  then have "1 / q \<le> 2 ^ bits n" by (simp add: ceiling_le_iff)
  then have "1 / 2 ^ bits n \<le> q" using q by (simp add: field_simps)
  then show ?thesis by (simp add: e pow2_powi power_int_minus_divide)
qed

lemma binade_upper: "0 < q \<Longrightarrow> q < pow2 (binade q + 1)"
proof (cases "1 \<le> q")
  case True
  define n where "n = nat \<lfloor>q\<rfloor>"
  from True have n: "0 < n" by (simp add: n_def)
  then have "0 < bits n" by (rule bits_pos)
  then have e: "binade q + 1 = int (bits n)"
    using True by (simp add: binade_def n_def)
  have "n < 2 ^ bits n" by (rule bits_upper)
  then have "int n < 2 ^ bits n" by (metis of_nat_less_iff of_nat_numeral of_nat_power)
  then have "\<lfloor>q\<rfloor> < 2 ^ bits n" using True by (simp add: n_def)
  then have "q < 2 ^ bits n" by (simp add: floor_less_iff)
  then show ?thesis by (simp add: e pow2_nat)
next
  case False
  assume q: "0 < q"
  define n where "n = nat (\<lceil>1 / q\<rceil> - 1)"
  from False q have "1 < 1 / q" by simp
  then have c: "2 \<le> \<lceil>1 / q\<rceil>" by linarith
  then have n: "0 < n" by (simp add: n_def)
  then have bp: "0 < bits n" by (rule bits_pos)
  have e: "binade q + 1 = - int (bits n - 1)"
    using False bp by (simp add: binade_def n_def)
  have "2 ^ (bits n - 1) \<le> n" using n by (rule bits_lower)
  then have "(2::int) ^ (bits n - 1) \<le> int n"
    by (metis of_nat_le_iff of_nat_numeral of_nat_power)
  moreover have "int n = \<lceil>1 / q\<rceil> - 1" using c unfolding n_def by linarith
  ultimately have "2 ^ (bits n - 1) < \<lceil>1 / q\<rceil>" by linarith
  then have "2 ^ (bits n - 1) < 1 / q" by (simp add: less_ceiling_iff)
  then have "q < 1 / 2 ^ (bits n - 1)" using q by (simp add: field_simps)
  then show ?thesis by (simp add: e pow2_powi power_int_minus_divide)
qed

lemma pow2_less_imp: "pow2 a < pow2 b \<Longrightarrow> a < b"
  using pow2_mono [of b a] by (cases "a < b") auto

lemma rne_of_int: "rne (of_int n) = n"
  by (simp add: rne_def)

lemma rne_ge_floor: "\<lfloor>x\<rfloor> \<le> rne x"
  by (simp add: rne_def Let_def)

lemma rne_ge_int: "of_int n \<le> x \<Longrightarrow> n \<le> rne x"
  using rne_ge_floor [of x] by (simp add: le_floor_iff [symmetric])

lemma rne_upper: "of_int (rne x) \<le> x + 1 / 2"
proof -
  have f: "of_int \<lfloor>x\<rfloor> \<le> x" by simp
  have "rne x = \<lfloor>x\<rfloor> \<or> (rne x = \<lfloor>x\<rfloor> + 1 \<and> 1 / 2 \<le> x - of_int \<lfloor>x\<rfloor>)"
    by (auto simp add: rne_def Let_def)
  then show ?thesis
  proof
    assume "rne x = \<lfloor>x\<rfloor>"
    then have "of_int (rne x) = (of_int \<lfloor>x\<rfloor> :: rat)" by simp
    with f show ?thesis by linarith
  next
    assume h: "rne x = \<lfloor>x\<rfloor> + 1 \<and> 1 / 2 \<le> x - of_int \<lfloor>x\<rfloor>"
    then have "of_int (rne x) = of_int \<lfloor>x\<rfloor> + (1::rat)" by simp
    with h show ?thesis by linarith
  qed
qed

lemma round53_pos_eq:
  "0 < q \<Longrightarrow> round53 q = of_int (rne (q / pow2 (binade q - 52))) * pow2 (binade q - 52)"
  by (simp add: round53_def Let_def)

lemma round53_minus: "round53 (- q) = - round53 q"
  by (simp add: round53_def Let_def)

lemma round53_upper:
  assumes "0 < q"
  shows "round53 q \<le> q + pow2 (binade q - 53)"
proof -
  define u where "u = pow2 (binade q - 52)"
  have u: "0 < u" by (simp add: u_def pow2_pos)
  have "binade q - 52 = (binade q - 53) + 1" by simp
  then have "u = pow2 (binade q - 53) * pow2 1" unfolding u_def by (simp only: pow2_add)
  then have half: "u / 2 = pow2 (binade q - 53)" by (simp add: pow2_def)
  have "of_int (rne (q / u)) \<le> q / u + 1 / 2" by (rule rne_upper)
  then have "of_int (rne (q / u)) * u \<le> (q / u + 1 / 2) * u"
    using u by (simp only: mult_le_cancel_right_pos)
  also have "\<dots> = q + u / 2" using u by (simp add: field_simps)
  finally show ?thesis using assms by (simp add: round53_pos_eq u_def [symmetric] half)
qed

lemma inverse_ulp_int:
  assumes "e \<le> 52"
  shows "1 / pow2 (e - 52) = of_int (2 ^ nat (52 - e))"
proof -
  have "pow2 (e - 52) * pow2 (52 - e) = pow2 0" by (simp only: pow2_add [symmetric]) simp
  then have "pow2 (e - 52) * pow2 (52 - e) = 1" by (simp add: pow2_def)
  moreover have "pow2 (e - 52) \<noteq> 0" using pow2_pos [of "e - 52"] by simp
  ultimately have "1 / pow2 (e - 52) = pow2 (52 - e)" by (simp add: field_simps)
  also have "\<dots> = of_int (2 ^ nat (52 - e))" using assms by (simp add: pow2_def)
  finally show ?thesis .
qed

lemma round53_ge_int:
  assumes q: "0 < q" and k: "of_int k \<le> q" and e: "binade q \<le> 52"
  shows "of_int k \<le> round53 q"
proof -
  define u where "u = pow2 (binade q - 52)"
  define m :: int where "m = 2 ^ nat (52 - binade q)"
  have u: "0 < u" by (simp add: u_def pow2_pos)
  have inv: "1 / u = of_int m" unfolding u_def m_def using e by (rule inverse_ulp_int)
  have "of_int (k * m) = of_int k * (1 / u)" by (simp add: inv)
  also have "\<dots> \<le> q * (1 / u)" using k u by (simp add: divide_le_cancel)
  finally have "of_int (k * m) \<le> q / u" by simp
  then have "k * m \<le> rne (q / u)" by (rule rne_ge_int)
  then have "(of_int (k * m) :: rat) \<le> of_int (rne (q / u))" by (simp only: of_int_le_iff)
  then have le: "of_int (k * m) * u \<le> of_int (rne (q / u)) * u"
    using u by (simp only: mult_le_cancel_right_pos)
  have one: "of_int m * u = 1" using inv u by (simp add: field_simps)
  have "of_int k = of_int k * (of_int m * u)" by (simp only: one mult_1_right)
  also have "\<dots> = of_int (k * m) * u" by (simp add: mult.assoc)
  also note le
  also have "of_int (rne (q / u)) * u = round53 q"
    unfolding u_def using q by (rule round53_pos_eq [symmetric])
  finally show ?thesis .
qed

lemma round53_pos_int_exact:
  assumes a: "0 < a" and b: "a < 2 ^ 53"
  shows "round53 (of_int a) = of_int a"
proof -
  define q :: rat where "q = of_int a"
  have q: "0 < q" using a by (simp add: q_def)
  define u where "u = pow2 (binade q - 52)"
  define m :: int where "m = 2 ^ nat (52 - binade q)"
  have u: "0 < u" by (simp add: u_def pow2_pos)
  have "pow2 (binade q) \<le> q" using q by (rule binade_lower)
  also have "q < of_int (2 ^ 53)" using b unfolding q_def by (simp only: of_int_less_iff)
  also have "(of_int (2 ^ 53) :: rat) = pow2 53" by (simp add: pow2_def)
  finally have "binade q < 53" by (rule pow2_less_imp)
  then have e: "binade q \<le> 52" by simp
  have inv: "1 / u = of_int m" unfolding u_def m_def using e by (rule inverse_ulp_int)
  have "q / u = q * (1 / u)" by simp
  also have "\<dots> = of_int (a * m)" by (simp only: inv q_def of_int_mult)
  finally have r: "rne (q / u) = a * m" by (simp only: rne_of_int)
  have one: "of_int m * u = 1" using inv u by (simp add: field_simps)
  have "round53 q = of_int (rne (q / u)) * u"
    unfolding u_def using q by (rule round53_pos_eq)
  also have "\<dots> = of_int a * (of_int m * u)"
    by (simp only: r of_int_mult mult.assoc)
  also have "\<dots> = of_int a" by (simp only: one mult_1_right)
  finally show ?thesis by (simp only: q_def)
qed

lemma round53_int_exact:
  assumes "\<bar>a\<bar> < 2 ^ 53"
  shows "round53 (of_int a) = of_int a"
proof -
  consider "a = 0" | "0 < a" | "a < 0" by linarith
  then show ?thesis
  proof cases
    case 1
    then show ?thesis by (simp add: round53_def)
  next
    case 2
    then show ?thesis using assms by (simp add: round53_pos_int_exact)
  next
    case 3
    then have "round53 (of_int (- a)) = of_int (- a)"
      using assms by (intro round53_pos_int_exact) simp_all
    then show ?thesis by (simp add: round53_minus)
  qed
qed

lemma round53_ge_binade:
  assumes q: "0 < q"
  shows "pow2 (binade q) \<le> round53 q"
proof -
  define u where "u = pow2 (binade q - 52)"
  have u: "0 < u" by (simp add: u_def pow2_pos)
  have "pow2 (binade q) = pow2 (binade q - 52 + 52)" by simp
  also have "\<dots> = u * pow2 52" unfolding u_def by (simp only: pow2_add)
  also have "pow2 52 = of_int (2 ^ 52)" by (simp add: pow2_def)
  finally have pe: "pow2 (binade q) = of_int (2 ^ 52) * u" by (simp add: mult.commute)
  have "pow2 (binade q) \<le> q" using q by (rule binade_lower)
  then have "of_int (2 ^ 52) \<le> q / u" using u by (simp add: pe pos_le_divide_eq)
  then have "2 ^ 52 \<le> rne (q / u)" by (rule rne_ge_int)
  then have "(of_int (2 ^ 52) :: rat) \<le> of_int (rne (q / u))" by (simp only: of_int_le_iff)
  then have "of_int (2 ^ 52) * u \<le> of_int (rne (q / u)) * u"
    using u by (simp only: mult_le_cancel_right_pos)
  then show ?thesis using q by (simp only: pe round53_pos_eq u_def [symmetric])
qed

lemma round53_pos: "0 < q \<Longrightarrow> 0 < round53 q"
  using round53_ge_binade [of q] pow2_pos [of "binade q"] by simp

lemma quot_small_divisor:
  assumes a: "0 < a" "a < 2 ^ 53" and i: "0 < i" "i < 2 ^ 53"
  shows "\<lfloor>round53 (of_int a / round53 (of_int i))\<rfloor> = a div i"
proof -
  define q :: rat where "q = of_int a / of_int i"
  define k where "k = a div i"
  have fi: "round53 (of_int i) = of_int i" using i by (rule round53_pos_int_exact)
  have ri: "(0::rat) < of_int i" using i by simp
  have q: "0 < q" using a i by (simp add: q_def)
  have kq: "of_int k \<le> q"
  proof -
    have "\<lfloor>q\<rfloor> = k" unfolding q_def k_def by (rule floor_divide_of_int_eq)
    then show ?thesis by (metis of_int_floor_le)
  qed
  have qk: "q + 1 / of_int i \<le> of_int k + 1"
  proof -
    have "a = k * i + a mod i" by (simp add: k_def)
    moreover have "a mod i \<le> i - 1" using i by simp
    ultimately have "a + 1 \<le> (k + 1) * i" by (simp add: algebra_simps)
    then have "(of_int (a + 1) :: rat) \<le> of_int ((k + 1) * i)" by (simp only: of_int_le_iff)
    then have "(of_int a + 1 :: rat) \<le> (of_int k + 1) * of_int i" by simp
    then have "(of_int a + 1) / of_int i \<le> (of_int k + 1 :: rat)"
      using ri by (simp add: pos_divide_le_eq)
    then show ?thesis by (simp add: q_def add_divide_distrib)
  qed
  have pe: "pow2 (binade q) \<le> q" using q by (rule binade_lower)
  have qa: "q \<le> of_int a"
  proof -
    have "(1::rat) \<le> of_int i" using i by simp
    then have "of_int a / of_int i \<le> (of_int a :: rat) / 1"
      using a by (intro divide_left_mono) simp_all
    then show ?thesis by (simp add: q_def)
  qed
  have a53: "(of_int a :: rat) < of_int (2 ^ 53)" using a by (simp only: of_int_less_iff)
  have p53: "(of_int (2 ^ 53) :: rat) = pow2 53" by (simp add: pow2_def)
  have "pow2 (binade q) < pow2 53" using pe qa a53 p53 by linarith
  then have "binade q < 53" by (rule pow2_less_imp)
  then have e: "binade q \<le> 52" by simp
  have lower: "of_int k \<le> round53 q" using q kq e by (rule round53_ge_int)
  have half: "pow2 (binade q - 53) < 1 / of_int i"
  proof -
    have "pow2 (binade q - 53) = pow2 (binade q) * pow2 (- 53)"
      by (simp only: pow2_add [symmetric]) simp
    also have "pow2 (- 53) = 1 / of_int (2 ^ 53)" by (simp add: pow2_def)
    finally have h: "pow2 (binade q - 53) = pow2 (binade q) / of_int (2 ^ 53)" by simp
    have "pow2 (binade q) * of_int i \<le> q * of_int i"
      using pe ri by (simp only: mult_le_cancel_right_pos)
    also have "q * of_int i = of_int a" using ri by (simp add: q_def)
    also note a53
    finally have "pow2 (binade q) * of_int i < of_int (2 ^ 53)" .
    then have "pow2 (binade q) / of_int (2 ^ 53) < 1 / of_int i"
      using ri by (simp add: field_simps)
    then show ?thesis by (simp only: h)
  qed
  have "round53 q \<le> q + pow2 (binade q - 53)" using q by (rule round53_upper)
  with half qk have upper: "round53 q < of_int k + 1" by linarith
  have "\<lfloor>round53 q\<rfloor> = k" using lower upper by (simp add: floor_unique)
  then show ?thesis by (simp only: fi q_def k_def)
qed

lemma round53_large:
  assumes "2 ^ 53 \<le> i"
  shows "of_int (2 ^ 53) \<le> round53 (of_int i)"
proof -
  define q :: rat where "q = of_int i"
  have q53: "(of_int (2 ^ 53) :: rat) \<le> q" unfolding q_def using assms by (simp only: of_int_le_iff)
  have p53: "(of_int (2 ^ 53) :: rat) = pow2 53" by (simp add: pow2_def)
  have q: "0 < q" using q53 by simp
  have "q < pow2 (binade q + 1)" using q by (rule binade_upper)
  with q53 p53 have "pow2 53 < pow2 (binade q + 1)" by linarith
  then have "53 < binade q + 1" by (rule pow2_less_imp)
  then have "pow2 53 \<le> pow2 (binade q)" by (intro pow2_mono) simp
  also have "\<dots> \<le> round53 q" using q by (rule round53_ge_binade)
  finally show ?thesis by (simp only: p53 q_def)
qed

lemma quot_large_divisor:
  assumes a: "0 < a" "a < 2 ^ 53" and i: "2 ^ 53 \<le> i"
  shows "\<lfloor>round53 (of_int a / round53 (of_int i))\<rfloor> = 0"
proof -
  define fi where "fi = round53 (of_int i)"
  define q :: rat where "q = of_int a / fi"
  have fi: "(of_int (2 ^ 53) :: rat) \<le> fi" unfolding fi_def using i by (rule round53_large)
  then have fipos: "0 < fi" by simp
  have ra: "(0::rat) < of_int a" using a by simp
  have q: "0 < q" using ra fipos by (simp add: q_def)
  have "a \<le> 2 ^ 53 - 1" using a by simp
  then have a53: "(of_int a :: rat) \<le> of_int (2 ^ 53 - 1)" by (simp only: of_int_le_iff)
  have "q \<le> of_int a / of_int (2 ^ 53)"
    unfolding q_def using fi ra by (intro divide_left_mono) simp_all
  also have "\<dots> \<le> of_int (2 ^ 53 - 1) / of_int (2 ^ 53)"
    using a53 by (intro divide_right_mono) simp_all
  finally have qle: "q \<le> of_int (2 ^ 53 - 1) / of_int (2 ^ 53)" .
  then have "q < 1" by simp
  have "pow2 (binade q) \<le> q" using q by (rule binade_lower)
  with \<open>q < 1\<close> have "pow2 (binade q) < pow2 0" by (simp add: pow2_def)
  then have "binade q < 0" by (rule pow2_less_imp)
  then have "pow2 (binade q - 53) \<le> pow2 (- 54)" by (intro pow2_mono) simp
  also have "pow2 (- 54) = 1 / of_int (2 ^ 54)" by (simp add: pow2_def)
  finally have half: "pow2 (binade q - 53) \<le> 1 / of_int (2 ^ 54)" .
  have "round53 q \<le> q + pow2 (binade q - 53)" using q by (rule round53_upper)
  with half qle have "round53 q \<le> of_int (2 ^ 53 - 1) / of_int (2 ^ 53) + 1 / of_int (2 ^ 54)"
    by linarith
  then have upper: "round53 q < 1" by simp
  have "0 < round53 q" using q by (rule round53_pos)
  with upper have "\<lfloor>round53 q\<rfloor> = 0" by (simp add: floor_unique)
  then show ?thesis by (simp only: q_def fi_def)
qed

lemma quot_exact:
  assumes a: "0 \<le> a" "a < 2 ^ 53" and i: "0 < i"
  shows "truncate_rat (round53 (of_int a / round53 (of_int i))) = a div i"
proof (cases "a = 0")
  case True
  then show ?thesis by (simp add: round53_def truncate_rat_def)
next
  case False
  with a have apos: "0 < a" by simp
  have ipos: "0 < round53 (of_int i)" using i by (intro round53_pos) simp
  then have "0 < of_int a / round53 (of_int i)" using apos by simp
  then have "0 < round53 (of_int a / round53 (of_int i))" by (rule round53_pos)
  then have t: "truncate_rat (round53 (of_int a / round53 (of_int i)))
      = \<lfloor>round53 (of_int a / round53 (of_int i))\<rfloor>" by (simp add: truncate_rat_def)
  show ?thesis
  proof (cases "i < 2 ^ 53")
    case True
    with apos a i show ?thesis by (simp only: t quot_small_divisor)
  next
    case False
    then have "2 ^ 53 \<le> i" by simp
    moreover from this a have "a div i = 0" by (simp add: div_pos_pos_trivial)
    ultimately show ?thesis using apos a by (simp only: t quot_large_divisor)
  qed
qed

section \<open>The interval count below \<open>2\<^sup>5\<^sup>3\<close> nanoseconds\<close>

lemma sint_word_of_int64:
  assumes "- (2 ^ 63) \<le> x" "x < 2 ^ 63"
  shows "sint (word_of_int x :: int64) = x"
proof -
  have "sint (word_of_int x :: int64) = signed_take_bit 63 x" by (simp add: sint_sbintrunc')
  also have "\<dots> = x" using assms by (rule signed_take_bit_int_eq_self)
  finally show ?thesis .
qed

lemma Time_Sub_in_range:
  assumes "- (2 ^ 63) \<le> t - u" "t - u < 2 ^ 63"
  shows "Time_Sub t u = word_of_int (t - u)"
proof -
  have "\<not> t - u < - (2 ^ 63)" "\<not> 2 ^ 63 - 1 < t - u" using assms by linarith+
  then show ?thesis
    unfolding Time_Sub_def minDuration_def maxDuration_def by (simp only: if_False)
qed

lemma Time_Sub_exact:
  assumes "\<bar>t - u\<bar> < 2 ^ 53"
  shows "sint (Time_Sub t u) = t - u"
proof -
  have r: "- (2 ^ 63) \<le> t - u" "t - u < 2 ^ 63" using assms by simp_all
  then have "Time_Sub t u = word_of_int (t - u)" by (rule Time_Sub_in_range)
  then show ?thesis using r by (simp only: sint_word_of_int64)
qed

lemma intervalCount_exact:
  assumes i: "0 < sint i" and d: "\<bar>e - s\<bar> < 2 ^ 53"
  shows "intervalCount s e i = word_of_int (\<bar>e - s\<bar> div sint i)"
proof -
  define a where "a = \<bar>e - s\<bar>"
  define fi where "fi = round53 (of_int (sint i))"
  have a: "0 \<le> a" "a < 2 ^ 53" using d by (simp_all add: a_def)
  have sub: "sint (Time_Sub e s) = e - s" using d by (rule Time_Sub_exact)
  have "round53 (of_int (e - s)) = of_int (e - s)" using d by (rule round53_int_exact)
  then have "float64_of_int64 (Time_Sub e s) = Finite (of_int (e - s))"
    unfolding float64_of_int64_def by (simp only: sub)
  then have fa: "float_abs (float64_of_int64 (Time_Sub e s)) = Finite (of_int a)"
    by (simp add: a_def)
  have "(0::rat) < of_int (sint i)" using i by (simp only: of_int_0_less_iff)
  then have "0 < fi" unfolding fi_def by (rule round53_pos)
  then have nz: "fi \<noteq> 0" by simp
  have q: "truncate_rat (round53 (of_int a / fi)) = a div sint i"
    unfolding fi_def using a i by (rule quot_exact)
  have "0 \<le> a div sint i" using a i by (simp add: pos_imp_zdiv_nonneg_iff)
  moreover have "a div sint i \<le> a div 1" using a i by (intro zdiv_mono2) simp_all
  ultimately have r: "- (2 ^ 63) \<le> a div sint i \<and> a div sint i < 2 ^ 63" using a by simp
  have "intervalCount s e i = int64_of_float64 (float_div (Finite (of_int a)) (Finite fi))"
    by (simp only: intervalCount_def Let_def fa) (simp only: float64_of_int64_def fi_def)
  also have "\<dots> = word_of_int (a div sint i)" using nz r by (simp add: q Let_def)
  finally show ?thesis by (simp only: a_def)
qed

section \<open>Signed readings of \<open>int64\<close> arithmetic that does not overflow\<close>

lemma sint64_ge: "- (2 ^ 63) \<le> sint (x :: int64)"
  using sint_ge [of x] by simp

lemma sint64_lt: "sint (x :: int64) < 2 ^ 63"
  using sint_lt [of x] by simp

lemma sint64_mult:
  assumes "- (2 ^ 63) \<le> sint a * sint b" "sint a * sint b < 2 ^ 63"
  shows "sint (a * b :: int64) = sint a * sint b"
proof -
  have "sint (a * b) = signed_take_bit 63 (sint a * sint b)" by (simp add: sint_word_mult)
  also have "\<dots> = sint a * sint b" using assms by (rule signed_take_bit_int_eq_self)
  finally show ?thesis .
qed

lemma sint64_add:
  assumes "- (2 ^ 63) \<le> sint a + sint b" "sint a + sint b < 2 ^ 63"
  shows "sint (a + b :: int64) = sint a + sint b"
proof -
  have "sint (a + b) = signed_take_bit 63 (sint a + sint b)" by (simp add: sint_word_add)
  also have "\<dots> = sint a + sint b" using assms by (rule signed_take_bit_int_eq_self)
  finally show ?thesis .
qed

lemma sint64_diff:
  assumes "- (2 ^ 63) \<le> sint a - sint b" "sint a - sint b < 2 ^ 63"
  shows "sint (a - b :: int64) = sint a - sint b"
proof -
  have "sint (a - b) = signed_take_bit 63 (sint a - sint b)" by (simp add: sint_word_diff)
  also have "\<dots> = sint a - sint b" using assms by (rule signed_take_bit_int_eq_self)
  finally show ?thesis .
qed

text \<open>The interval count and the advance of the anchor, read as integers.\<close>

lemma intervalCount_forward:
  assumes r: "0 < sint i" and d: "0 \<le> d" "d < 2 ^ 53"
  shows "intervalCount s (s + d) i = word_of_int (d div sint i)"
    and "sint (intervalCount s (s + d) i) = d div sint i"
    and "sint (intervalCount s (s + d) i * i) = d div sint i * sint i"
proof -
  have "\<bar>s + d - s\<bar> < 2 ^ 53" using d by simp
  with r have "intervalCount s (s + d) i = word_of_int (\<bar>s + d - s\<bar> div sint i)"
    by (rule intervalCount_exact)
  then show ic: "intervalCount s (s + d) i = word_of_int (d div sint i)" using d by simp
  have k0: "0 \<le> d div sint i" using d r by (simp add: pos_imp_zdiv_nonneg_iff)
  have "d div sint i \<le> d div 1" using d r by (intro zdiv_mono2) simp_all
  then have kd: "d div sint i \<le> d" by simp
  have "- (2 ^ 63) \<le> d div sint i" "d div sint i < 2 ^ 63" using k0 kd d by simp_all
  then show sk: "sint (intervalCount s (s + d) i) = d div sint i"
    by (simp only: ic sint_word_of_int64)
  have "d div sint i * sint i + d mod sint i = d" by simp
  moreover have "0 \<le> d mod sint i" using r by simp
  ultimately have "d div sint i * sint i \<le> d" by linarith
  moreover have "0 \<le> d div sint i * sint i" using k0 r by simp
  ultimately have "- (2 ^ 63) \<le> sint (intervalCount s (s + d) i) * sint i"
    "sint (intervalCount s (s + d) i) * sint i < 2 ^ 63" using d by (simp_all add: sk)
  then have "sint (intervalCount s (s + d) i * i) = sint (intervalCount s (s + d) i) * sint i"
    by (rule sint64_mult)
  then show "sint (intervalCount s (s + d) i * i) = d div sint i * sint i" by (simp only: sk)
qed

section \<open>Idempotence of the refill\<close>

lemma refill_saturated:
  assumes "tokens (refill b t) = Burst b"
  shows "lastUpdate (refill b t) = t"
  using assms
  by (auto simp add: refill_def skipDiff_def Let_def word_sle_eq split: if_splits)

lemma refill_Burst: "Burst (refill b t) = Burst b"
  by (simp add: refill_def skipDiff_def Let_def)

lemma refill_idem:
  assumes "tokens (refill b t) = Burst b
    \<or> (0 <s Refill b \<and> lastUpdate b \<le> t \<and> t - lastUpdate b < 2 ^ 53)"
  shows "refill (refill b t) t = refill b t"
proof (cases "tokens (refill b t) = Burst b")
  case True
  then have "lastUpdate (refill b t) = t" by (rule refill_saturated)
  moreover have "tokens (refill b t) = Burst (refill b t)" using True by (simp add: refill_Burst)
  ultimately show ?thesis by (subst refill_def) simp
next
  case False
  with assms have r: "0 < sint (Refill b)" and d: "0 \<le> t - lastUpdate b" "t - lastUpdate b < 2 ^ 53"
    by (simp_all add: word_sless_alt)
  define d0 where "d0 = t - lastUpdate b"
  define delta where "delta = intervalCount (lastUpdate b) t (Refill b)"
  define lu where "lu = lastUpdate b + sint (delta * Refill b)"
  define x where "x = tokens b + delta * Limit b"
  have t: "t = lastUpdate b + d0" by (simp add: d0_def)
  have d0: "0 \<le> d0" "d0 < 2 ^ 53" using d by (simp_all add: d0_def)
  have nb: "tokens b \<noteq> Burst b" using False by (auto simp add: refill_def)
  have nc: "\<not> Burst b \<le>s x" using False nb
    by (auto simp add: refill_def skipDiff_def Let_def x_def delta_def)
  have first: "refill b t = b\<lparr>lastUpdate := lu, tokens := x\<rparr>"
    using nb nc by (simp add: refill_def skipDiff_def Time_Add_def Let_def x_def lu_def delta_def)
  have "sint (intervalCount (lastUpdate b) (lastUpdate b + d0) (Refill b) * Refill b)
      = d0 div sint (Refill b) * sint (Refill b)"
    using r d0 by (rule intervalCount_forward(3))
  then have lu: "lu = lastUpdate b + d0 div sint (Refill b) * sint (Refill b)"
    by (simp add: lu_def delta_def t [symmetric])
  have m: "t = lu + d0 mod sint (Refill b)"
    by (simp add: lu t)
  have m0: "0 \<le> d0 mod sint (Refill b)" using r by simp
  have "d0 mod sint (Refill b) \<le> d0" using d0 r by (simp add: zmod_le_nonneg_dividend)
  then have m1: "d0 mod sint (Refill b) < 2 ^ 53" using d0 by simp
  have "intervalCount lu (lu + d0 mod sint (Refill b)) (Refill b)
      = word_of_int (d0 mod sint (Refill b) div sint (Refill b))"
    using r m0 m1 by (rule intervalCount_forward(1))
  then have second: "intervalCount lu t (Refill b) = 0" using r by (simp add: m [symmetric])
  have xb: "x \<noteq> Burst b" using nc by auto
  show ?thesis
    unfolding first
    using xb nc second by (simp add: refill_def skipDiff_def Time_Add_def Let_def)
qed

section \<open>The rounding at given numbers\<close>

text \<open>
  Above \<open>2\<^sup>5\<^sup>3\<close> the conversion of a duration rounds: an odd number of nanoseconds
  between \<open>2\<^sup>5\<^sup>3\<close> and \<open>2\<^sup>5\<^sup>4\<close> lies halfway between two neighbours and goes
  to the one with the even significand.
\<close>

lemma binade_eqI:
  assumes "0 < q" "pow2 e \<le> q" "q < pow2 (e + 1)"
  shows "binade q = e"
proof -
  have "pow2 (binade q) \<le> q" using assms(1) by (rule binade_lower)
  with assms(3) have "pow2 (binade q) < pow2 (e + 1)" by linarith
  then have "binade q < e + 1" by (rule pow2_less_imp)
  moreover have "q < pow2 (binade q + 1)" using assms(1) by (rule binade_upper)
  with assms(2) have "pow2 e < pow2 (binade q + 1)" by linarith
  then have "e < binade q + 1" by (rule pow2_less_imp)
  ultimately show ?thesis by simp
qed

lemma round53_eval:
  assumes "0 < q" "pow2 e \<le> q" "q < pow2 (e + 1)"
  shows "round53 q = of_int (rne (q / pow2 (e - 52))) * pow2 (e - 52)"
  using assms by (simp add: round53_pos_eq binade_eqI)

lemma rne_tie:
  assumes "x = of_int f + 1 / 2"
  shows "rne x = (if even f then f else f + 1)"
proof -
  have "\<lfloor>x\<rfloor> = f" unfolding assms by (rule floor_unique) simp_all
  then show ?thesis by (simp add: rne_def Let_def assms)
qed

lemma round53_odd_above_2_53: "round53 9007199254740993 = 9007199254740992"
proof -
  have "rne (9007199254740993 / 2) = 4503599627370496"
    using rne_tie [of "9007199254740993 / 2" 4503599627370496] by simp
  then show ?thesis
    using round53_eval [of 9007199254740993 53] by (simp add: pow2_def)
qed

lemma round53_2_53: "round53 9007199254740992 = 9007199254740992"
proof -
  have "rne (of_int 4503599627370496) = 4503599627370496" by (rule rne_of_int)
  then show ?thesis
    using round53_eval [of 9007199254740992 53] by (simp add: pow2_def)
qed

lemma round53_1: "round53 1 = 1"
  using round53_int_exact [of 1] by simp

lemma ic_undercount: "intervalCount 1000 9007199254741993 1 = 9007199254740992"
  by (simp add: intervalCount_def Time_Sub_def minDuration_def maxDuration_def
      float64_of_int64_def round53_odd_above_2_53 round53_1 round53_2_53 truncate_rat_def)

lemma round53_below_second: "round53 9007199999999999 = 9007200000000000"
proof -
  have "rne (9007199999999999 / 2) = 4503600000000000"
    using rne_tie [of "9007199999999999 / 2" 4503599999999999] by simp
  then show ?thesis
    using round53_eval [of 9007199999999999 53] by (simp add: pow2_def)
qed

lemma round53_second: "round53 1000000000 = 1000000000"
  using round53_int_exact [of 1000000000] by simp

lemma round53_quotient: "round53 9007200 = 9007200"
  using round53_int_exact [of 9007200] by simp

lemma ic_overcount: "intervalCount 0 9007199999999999 1000000000 = 9007200"
  by (simp add: intervalCount_def Time_Sub_def minDuration_def maxDuration_def
      float64_of_int64_def round53_below_second round53_second round53_quotient truncate_rat_def)

section \<open>Integer division and credit without overflow\<close>

lemma int64_div_nonneg:
  assumes "0 \<le> sint a" "0 < sint b"
  shows "int64_div a b = Inr (word_of_int (sint a div sint b))"
proof -
  have "b \<noteq> 0" using assms(2) by auto
  moreover have "sgn (sint a) * sgn (sint b) * (\<bar>sint a\<bar> div \<bar>sint b\<bar>) = sint a div sint b"
  proof (cases "sint a = 0")
    case True
    then show ?thesis by simp
  next
    case False
    with assms show ?thesis by simp
  qed
  ultimately show ?thesis by (simp add: int64_div_def)
qed

lemma credit_sint:
  assumes "0 \<le> k * sint l" "sint x + k * sint l < 2 ^ 63"
  shows "sint (x + word_of_int k * l :: int64) = sint x + k * sint l"
proof -
  have "x + word_of_int k * l = (word_of_int (sint x + k * sint l) :: int64)" by simp
  moreover have "- (2 ^ 63) \<le> sint x + k * sint l" using assms(1) sint64_ge [of x] by linarith
  ultimately show ?thesis using assms(2) by (simp only: sint_word_of_int64)
qed

section \<open>Unfolding the operations\<close>

lemmas bucket_simps =
  NewBucket_def refill_def skipDiff_def Time_Add_def CanDrawAt_def DrawAt_def DrawMaxAt_def
  ForceDrawAt_def SetTokensAt_def TokensAt_def IsResetAt_def min_int64_def Let_def
  word_sle_eq word_sless_alt intervalCount_exact

section \<open>The refill reconciliation\<close>

text \<open>
  Claim C1. The refill reconciliation of the code, \<open>refill\<close>, computes what the
  reference algorithm of the specification, \<open>reconcile_spec\<close>, computes, for every
  bucket and every query time: a saturated bucket only has \<open>lastUpdate\<close> set to the
  query time; otherwise \<open>delta\<close> is the interval count, \<open>lastUpdate\<close> advances by
  \<open>delta * refillInterval\<close>, the balance grows by \<open>delta * rate\<close>, and a balance that
  meets or exceeds the cap is clamped to it with \<open>lastUpdate\<close> set to the query time.
\<close>

theorem refill_follows_reference_algorithm: "refill b t = reconcile_spec b t"
  by (simp add: refill_def reconcile_spec_def skipDiff_def Time_Add_def Let_def)

text \<open>
  Claim C7. For a bucket with a rate that is not negative, the balance right after the
  refill computation is at most the burst cap, whatever the balance was before, also
  when it had been pushed above the cap. Each of \<open>CanDrawAt\<close>, \<open>DrawAt\<close>,
  \<open>DrawMaxAt\<close>, \<open>ForceDrawAt\<close>, \<open>SetTokensAt\<close>, \<open>TokensAt\<close> and \<open>IsResetAt\<close>
  starts with this computation, and the three that only read leave its result as the
  bucket's state.
\<close>

theorem refill_balance_at_most_burst:
  assumes "0 \<le>s Limit b"
  shows "tokens (refill b t) \<le>s Burst b
    \<and> tokens (snd (TokensAt b t)) \<le>s Burst b
    \<and> tokens (snd (CanDrawAt b t n)) \<le>s Burst b
    \<and> tokens (snd (IsResetAt b t)) \<le>s Burst b"
proof -
  have "tokens (refill b t) \<le>s Burst b"
    by (simp add: refill_def skipDiff_def Let_def word_sle_eq word_sless_alt)
  then show ?thesis by (simp add: TokensAt_def CanDrawAt_def IsResetAt_def Let_def)
qed

text \<open>
  The bound at a bucket whose balance \<open>SetTokensAt\<close> has set to 30, above its cap of 20.
\<close>

theorem refill_balance_at_most_burst_witness:
  "(0 :: int64) \<le>s Limit (SetTokensAt (NewBucket 5 20 1000000000) 1000 30)
   \<and> tokens (SetTokensAt (NewBucket 5 20 1000000000) 1000 30) = 30
   \<and> tokens (refill (SetTokensAt (NewBucket 5 20 1000000000) 1000 30) 2000) \<le>s 20"
proof -
  have h: "(0 :: int64) \<le>s Limit (SetTokensAt (NewBucket 5 20 1000000000) 1000 30)"
    by (simp add: bucket_simps)
  have "tokens (refill (SetTokensAt (NewBucket 5 20 1000000000) 1000 30) 2000)
      \<le>s Burst (SetTokensAt (NewBucket 5 20 1000000000) 1000 30)"
    using refill_balance_at_most_burst [OF h] by (rule conjunct1)
  moreover have "Burst (SetTokensAt (NewBucket 5 20 1000000000) 1000 30) = 20"
    by (simp add: bucket_simps)
  moreover have "tokens (SetTokensAt (NewBucket 5 20 1000000000) 1000 30) = 30"
    by (simp add: bucket_simps)
  ultimately show ?thesis using h by simp
qed

section \<open>The refill scenario with rate 5, burst 20 and a refill interval of one second\<close>

text \<open>
  Claim C2, as the code has it. A new bucket is drained by a draw of 20 at \<open>t0\<close>.
  The read at \<open>t0 + 1s\<close> returns 5; after it, the read at \<open>t0 + 3s\<close> returns 15 and
  the read at \<open>t0 + 4s\<close> returns 20, the cap, which four intervals of 5 reach; after
  the read at \<open>t0 + 3s\<close>, the reads at \<open>t0 + 4s\<close> and at \<open>t0 + 5s\<close> return 20, the
  second one clamped, as the credit would make 25.
\<close>

theorem refill_scenario:
  "let b0 = NewBucket 5 20 1000000000;
       b1 = snd (DrawAt b0 t0 20);
       b2 = snd (TokensAt b1 (t0 + 1000000000));
       b3 = snd (TokensAt b2 (t0 + 3000000000))
   in fst (DrawAt b0 t0 20)
      \<and> fst (TokensAt b1 (t0 + 1000000000)) = 5
      \<and> fst (TokensAt b2 (t0 + 3000000000)) = 15
      \<and> fst (TokensAt b2 (t0 + 4000000000)) = 20
      \<and> fst (TokensAt b3 (t0 + 4000000000)) = 20
      \<and> fst (TokensAt b3 (t0 + 5000000000)) = 20"
  by (simp add: bucket_simps)

text \<open>
  Claim C2 as stated has the read at \<open>t0 + 4s\<close>, made after the read at \<open>t0 + 1s\<close>,
  return 15. With \<open>t0 = 1000\<close> it returns 20: four whole intervals have passed since
  the draw.
\<close>

theorem TokensAt_after_4s_counterexample:
  "fst (TokensAt (snd (TokensAt (snd (DrawAt (NewBucket 5 20 1000000000) 1000 20)) 1000001000))
          4000001000) = 20
   \<and> fst (TokensAt (snd (TokensAt (snd (DrawAt (NewBucket 5 20 1000000000) 1000 20)) 1000001000))
          4000001000) \<noteq> 15"
  by (simp add: bucket_simps)

section \<open>Drawing\<close>

text \<open>
  Claim C3. For every bucket, instant \<open>t\<close> and \<open>n \<ge> 0\<close>: when the reconciled balance
  at \<open>t\<close> (what \<open>TokensAt\<close> returns) is at least \<open>n\<close>, \<open>DrawAt\<close> returns true and
  leaves the reconciled state with the balance decreased by exactly \<open>n\<close>; when it is
  less than \<open>n\<close>, \<open>DrawAt\<close> returns false and leaves the reconciled state as it is.
\<close>

theorem DrawAt_all_or_nothing:
  assumes "0 \<le>s n"
  shows "if n \<le>s fst (TokensAt b t)
         then DrawAt b t n = (True, (snd (TokensAt b t))\<lparr>tokens := fst (TokensAt b t) - n\<rparr>)
            \<and> sint (tokens (snd (DrawAt b t n))) = sint (fst (TokensAt b t)) - sint n
         else DrawAt b t n = (False, snd (TokensAt b t))"
proof -
  define x where "x = tokens (refill b t)"
  have n0: "0 \<le> sint n" using assms by (simp add: word_sle_eq)
  show ?thesis
  proof (cases "n \<le>s x")
    case True
    then have le: "sint n \<le> sint x" by (simp add: word_sle_eq)
    have "- (2 ^ 63) \<le> sint x - sint n" using le by simp
    moreover have "sint x - sint n < 2 ^ 63" using n0 sint64_lt [of x] by linarith
    ultimately have "sint (x - n) = sint x - sint n" by (rule sint64_diff)
    with True show ?thesis
      by (simp add: DrawAt_def TokensAt_def Let_def x_def word_sle_eq word_sless_alt)
  next
    case False
    then show ?thesis
      by (simp add: DrawAt_def TokensAt_def Let_def x_def word_sle_eq word_sless_alt)
  qed
qed

text \<open>
  Drawing 15 from a new bucket with a cap of 20 succeeds and leaves 5; drawing 25 is
  refused and leaves the reconciled bucket.
\<close>

theorem DrawAt_all_or_nothing_witness:
  "(0 :: int64) \<le>s 15
   \<and> fst (TokensAt (NewBucket 5 20 1000000000) 1000) = 20
   \<and> fst (DrawAt (NewBucket 5 20 1000000000) 1000 15)
   \<and> sint (tokens (snd (DrawAt (NewBucket 5 20 1000000000) 1000 15))) = 5
   \<and> (0 :: int64) \<le>s 25
   \<and> DrawAt (NewBucket 5 20 1000000000) 1000 25
       = (False, snd (TokensAt (NewBucket 5 20 1000000000) 1000))"
proof -
  have h: "(0 :: int64) \<le>s 15" by (simp add: word_sle_eq)
  have h': "(0 :: int64) \<le>s 25" by (simp add: word_sle_eq)
  have tk: "fst (TokensAt (NewBucket 5 20 1000000000) 1000) = 20" by (simp add: bucket_simps)
  show ?thesis
    using DrawAt_all_or_nothing [OF h, of "NewBucket 5 20 1000000000" 1000]
      DrawAt_all_or_nothing [OF h', of "NewBucket 5 20 1000000000" 1000] h h'
    by (simp add: tk word_sle_eq)
qed

text \<open>
  Claim C10. For every bucket, instant \<open>t\<close> and \<open>n\<close>, negative ones included,
  \<open>DrawMaxAt\<close> returns the smaller of \<open>n\<close> and the reconciled balance and subtracts
  what it returns from the balance. For a negative \<open>n\<close> that the balance is not below,
  it returns \<open>n\<close> and adds \<open>\<bar>n\<bar>\<close> to the balance: in \<open>int64\<close> arithmetic always, and
  as integers whenever the sum fits an \<open>int64\<close>.
\<close>

theorem DrawMaxAt_draws_min:
  "fst (DrawMaxAt b t n) = min_int64 n (fst (TokensAt b t))
   \<and> sint (fst (DrawMaxAt b t n)) = min (sint n) (sint (fst (TokensAt b t)))
   \<and> snd (DrawMaxAt b t n)
       = (snd (TokensAt b t))\<lparr>tokens := fst (TokensAt b t) - fst (DrawMaxAt b t n)\<rparr>
   \<and> (n <s 0 \<and> n \<le>s fst (TokensAt b t) \<longrightarrow>
         fst (DrawMaxAt b t n) = n
       \<and> tokens (snd (DrawMaxAt b t n)) = fst (TokensAt b t) + word_of_int \<bar>sint n\<bar>
       \<and> (sint (fst (TokensAt b t)) + \<bar>sint n\<bar> < 2 ^ 63 \<longrightarrow>
            sint (tokens (snd (DrawMaxAt b t n))) = sint (fst (TokensAt b t)) + \<bar>sint n\<bar>))"
proof -
  define x where "x = tokens (refill b t)"
  have a: "fst (DrawMaxAt b t n) = min_int64 n x"
    by (simp add: DrawMaxAt_def Let_def x_def)
  have b: "snd (DrawMaxAt b t n) = (refill b t)\<lparr>tokens := x - min_int64 n x\<rparr>"
    by (simp add: DrawMaxAt_def Let_def x_def)
  have c: "sint (min_int64 n x) = min (sint n) (sint x)"
    by (simp add: min_int64_def word_sless_alt min_def)
  have d: "min_int64 n x = n" if "n \<le>s x"
    using that by (auto simp add: min_int64_def signed.le_less)
  have e: "x - n = x + word_of_int \<bar>sint n\<bar>" if "n <s 0"
  proof -
    have "sint n < 0" using that by (simp add: word_sless_alt)
    then have "\<bar>sint n\<bar> = - sint n" by simp
    then have "(word_of_int \<bar>sint n\<bar> :: int64) = - n" by simp
    then show ?thesis by simp
  qed
  have f: "sint (x - n) = sint x + \<bar>sint n\<bar>" if "n <s 0" "sint x + \<bar>sint n\<bar> < 2 ^ 63"
  proof -
    have neg: "sint n < 0" using that(1) by (simp add: word_sless_alt)
    have "- (2 ^ 63) \<le> sint x - sint n" using neg sint64_ge [of x] by linarith
    moreover have "sint x - sint n < 2 ^ 63" using neg that(2) by linarith
    ultimately have "sint (x - n) = sint x - sint n" by (rule sint64_diff)
    with neg show ?thesis by simp
  qed
  have tk: "fst (TokensAt b t) = x" "snd (TokensAt b t) = refill b t"
    by (simp_all add: TokensAt_def Let_def x_def)
  show ?thesis
    unfolding tk a b using c d e f by simp
qed

text \<open>
  A request of \<open>-3\<close> on a balance of 5 returns \<open>-3\<close> and leaves 8.
\<close>

theorem DrawMaxAt_draws_min_witness:
  "fst (TokensAt (snd (DrawAt (NewBucket 5 20 1000000000) 1000 15)) 1000) = 5
   \<and> DrawMaxAt (snd (DrawAt (NewBucket 5 20 1000000000) 1000 15)) 1000 (- 3)
       = (- 3, \<lparr>Limit = 5, Burst = 20, Refill = 1000000000, tokens = 8, lastUpdate = 1000\<rparr>)"
proof -
  have tk: "TokensAt (snd (DrawAt (NewBucket 5 20 1000000000) 1000 15)) 1000
      = (5, \<lparr>Limit = 5, Burst = 20, Refill = 1000000000, tokens = 5, lastUpdate = 1000\<rparr>)"
    by (simp add: bucket_simps)
  have h: "(- 3 :: int64) <s 0 \<and> (- 3 :: int64) \<le>s 5" by (simp add: word_sle_eq word_sless_alt)
  show ?thesis
    using DrawMaxAt_draws_min [of "snd (DrawAt (NewBucket 5 20 1000000000) 1000 15)" 1000 "- 3"] h
    by (simp add: tk prod_eq_iff min_int64_def word_sless_alt)
qed

section \<open>Reading without reconciling\<close>

lemma Time_Sub_saturated: "Time_Sub 63871286400000000000 0 = 9223372036854775807"
  by (simp add: Time_Sub_def minDuration_def maxDuration_def)

lemma int64_div_saturated: "int64_div 9223372036854775807 1000000000 = Inr 9223372036"
  by (simp add: int64_div_def)

text \<open>
  Claim C9 at one input. A new bucket with a rate and a cap of \<open>10\<^sup>9\<close> tokens and a
  refill interval of one second, asked at the first instant of the year 2025. Its
  \<open>lastUpdate\<close> is still the zero time, the difference saturates at the largest
  duration, \<open>delta\<close> is 9223372036, and the \<open>int64\<close> sum of the balance and
  \<open>delta * rate\<close> wraps around to \<open>-9223372036709551616\<close>, which \<open>InferTokensAt\<close>
  returns. The bucket is full: reconciled at that instant it holds \<open>10\<^sup>9\<close> tokens.
  The bucket itself is left as it was.
\<close>

theorem InferTokensAt_fresh_bucket_example:
  "fst (InferTokensAt (NewBucket 1000000000 1000000000 1000000000) 63871286400000000000)
     = Inr 9223372037000000000
   \<and> sint (9223372037000000000 :: int64) = - 9223372036709551616
   \<and> fst (TokensAt (NewBucket 1000000000 1000000000 1000000000) 63871286400000000000)
     = 1000000000
   \<and> snd (InferTokensAt (NewBucket 1000000000 1000000000 1000000000) 63871286400000000000)
     = NewBucket 1000000000 1000000000 1000000000"
  by (simp add: InferTokensAt_def NewBucket_def Time_Sub_saturated int64_div_saturated
      TokensAt_def refill_def word_sless_alt Let_def)

text \<open>
  For every bucket and every instant, \<open>InferTokensAt\<close> leaves the bucket as it was:
  neither the balance nor \<open>lastUpdate\<close> changes, also when the call panics on a zero
  refill interval.
\<close>

theorem InferTokensAt_frame: "snd (InferTokensAt b t) = b"
  by (simp add: InferTokensAt_def Let_def split: sum.split)

text \<open>
  With a positive refill interval, a rate that is not negative, an instant that is not
  before \<open>lastUpdate\<close> and less than \<open>2\<^sup>5\<^sup>3\<close> nanoseconds after it, and a credited
  balance that fits an \<open>int64\<close>, \<open>InferTokensAt\<close> returns what \<open>TokensAt\<close> returns
  at that instant.
\<close>

theorem InferTokensAt_agrees_with_TokensAt:
  assumes "0 <s Refill b" "0 \<le>s Limit b" "lastUpdate b \<le> t" "t - lastUpdate b < 2 ^ 53"
    and "sint (tokens b) + (t - lastUpdate b) div sint (Refill b) * sint (Limit b) < 2 ^ 63"
  shows "fst (InferTokensAt b t) = Inr (fst (TokensAt b t))"
proof -
  define d where "d = t - lastUpdate b"
  define k where "k = d div sint (Refill b)"
  define x where "x = tokens b + word_of_int k * Limit b"
  from assms have r: "0 < sint (Refill b)" and l: "0 \<le> sint (Limit b)"
    and d: "0 \<le> d" "d < 2 ^ 53"
    and nov: "sint (tokens b) + k * sint (Limit b) < 2 ^ 63"
    by (simp_all add: word_sless_alt word_sle_eq d_def k_def)
  have t: "t = lastUpdate b + d" by (simp add: d_def)
  have k0: "0 \<le> k" using d r by (simp add: k_def pos_imp_zdiv_nonneg_iff)
  have "\<bar>t - lastUpdate b\<bar> < 2 ^ 53" using d by (simp add: d_def)
  then have sub: "sint (Time_Sub t (lastUpdate b)) = d" unfolding d_def by (rule Time_Sub_exact)
  have "int64_div (Time_Sub t (lastUpdate b)) (Refill b)
      = Inr (word_of_int (sint (Time_Sub t (lastUpdate b)) div sint (Refill b)))"
    using d r by (intro int64_div_nonneg) (simp_all add: sub)
  then have q: "int64_div (Time_Sub t (lastUpdate b)) (Refill b) = Inr (word_of_int k)"
    by (simp only: sub k_def)
  have "intervalCount (lastUpdate b) (lastUpdate b + d) (Refill b) = word_of_int (d div sint (Refill b))"
    using r d by (rule intervalCount_forward(1))
  then have ic: "intervalCount (lastUpdate b) t (Refill b) = word_of_int k"
    by (simp only: t [symmetric] k_def)
  have infer: "fst (InferTokensAt b t) = Inr (if Burst b <s x then Burst b else x)"
    by (simp add: InferTokensAt_def q Let_def x_def)
  have tok: "fst (TokensAt b t)
      = (if tokens b = Burst b then Burst b else if Burst b \<le>s x then Burst b else x)"
    by (simp add: TokensAt_def refill_def skipDiff_def ic Let_def x_def)
  have "0 \<le> k * sint (Limit b)" using k0 l by simp
  then have "sint x = sint (tokens b) + k * sint (Limit b)"
    unfolding x_def using nov by (rule credit_sint)
  then have ge: "tokens b \<le>s x" using k0 l by (simp add: word_sle_eq)
  show ?thesis
    unfolding infer tok using ge by (auto simp add: signed.le_less)
qed

text \<open>
  A drained bucket, asked three and a half seconds after the draw: the forecast is 15,
  as is the reconciled balance.
\<close>

theorem InferTokensAt_agrees_with_TokensAt_witness:
  "fst (InferTokensAt (snd (DrawAt (NewBucket 5 20 1000000000) 1000 20)) 3500001000) = Inr 15
   \<and> fst (TokensAt (snd (DrawAt (NewBucket 5 20 1000000000) 1000 20)) 3500001000) = 15"
proof -
  have b: "snd (DrawAt (NewBucket 5 20 1000000000) 1000 20)
      = \<lparr>Limit = 5, Burst = 20, Refill = 1000000000, tokens = 0, lastUpdate = 1000\<rparr>"
    by (simp add: bucket_simps)
  have tk: "fst (TokensAt \<lparr>Limit = 5, Burst = 20, Refill = 1000000000, tokens = 0, lastUpdate = 1000\<rparr> 3500001000) = 15"
    by (simp add: bucket_simps)
  show ?thesis
    using InferTokensAt_agrees_with_TokensAt
      [of "\<lparr>Limit = 5, Burst = 20, Refill = 1000000000, tokens = 0, lastUpdate = 1000\<rparr>" 3500001000]
    by (simp add: b tk word_sle_eq word_sless_alt)
qed

section \<open>Reconciling twice at one instant\<close>

text \<open>
  Claim C8, as the code has it. When the bucket is full once reconciled at \<open>t\<close>, or
  its refill interval is positive and \<open>t\<close> is not before \<open>lastUpdate\<close> and less than
  \<open>2\<^sup>5\<^sup>3\<close> nanoseconds after it, a second \<open>TokensAt\<close> or \<open>CanDrawAt\<close> at the same
  \<open>t\<close> returns what the first returned and leaves the state the first left.
\<close>

theorem reconcile_twice_same_result:
  assumes "fst (IsResetAt b t)
    \<or> (0 <s Refill b \<and> lastUpdate b \<le> t \<and> t - lastUpdate b < 2 ^ 53)"
  shows "fst (TokensAt (snd (TokensAt b t)) t) = fst (TokensAt b t)
    \<and> fst (CanDrawAt (snd (CanDrawAt b t n)) t n) = fst (CanDrawAt b t n)
    \<and> snd (TokensAt (snd (TokensAt b t)) t) = snd (TokensAt b t)
    \<and> snd (CanDrawAt (snd (CanDrawAt b t n)) t n) = snd (CanDrawAt b t n)"
proof -
  from assms have "tokens (refill b t) = Burst b
    \<or> (0 <s Refill b \<and> lastUpdate b \<le> t \<and> t - lastUpdate b < 2 ^ 53)"
    by (simp add: IsResetAt_def Let_def refill_Burst)
  then have "refill (refill b t) t = refill b t" by (rule refill_idem)
  then show ?thesis by (simp add: TokensAt_def CanDrawAt_def Let_def)
qed

text \<open>
  A bucket drained at 1000, read twice two and a half seconds later: 10 both times.
\<close>

theorem reconcile_twice_same_result_witness:
  "(0 :: int64) <s Refill (snd (DrawAt (NewBucket 5 20 1000000000) 1000 20))
   \<and> lastUpdate (snd (DrawAt (NewBucket 5 20 1000000000) 1000 20)) \<le> 2500001000
   \<and> fst (TokensAt (snd (DrawAt (NewBucket 5 20 1000000000) 1000 20)) 2500001000) = 10
   \<and> fst (TokensAt (snd (TokensAt (snd (DrawAt (NewBucket 5 20 1000000000) 1000 20))
        2500001000)) 2500001000) = 10"
proof -
  have b: "snd (DrawAt (NewBucket 5 20 1000000000) 1000 20)
      = \<lparr>Limit = 5, Burst = 20, Refill = 1000000000, tokens = 0, lastUpdate = 1000\<rparr>"
    by (simp add: bucket_simps)
  have h: "(0 :: int64) <s 1000000000 \<and> (1000 :: int) \<le> 2500001000
      \<and> (2500001000 - 1000 :: int) < 2 ^ 53"
    by (simp add: word_sless_alt)
  have tk: "fst (TokensAt \<lparr>Limit = 5, Burst = 20, Refill = 1000000000, tokens = 0, lastUpdate = 1000\<rparr>
        2500001000) = 10"
    by (simp add: bucket_simps)
  show ?thesis
    using reconcile_twice_same_result
      [of "\<lparr>Limit = 5, Burst = 20, Refill = 1000000000, tokens = 0, lastUpdate = 1000\<rparr>"
        2500001000 0] h
    by (simp add: b tk)
qed

text \<open>
  Claim C8 as stated holds for every instant. A bucket drained at second 10 and then
  read twice at second 7, before its \<open>lastUpdate\<close>: the interval count takes the
  absolute difference, the anchor moves three seconds further from \<open>t\<close>, and the second
  read credits six more intervals. \<open>TokensAt\<close> returns 3 and then 9; \<open>CanDrawAt\<close> for
  5 tokens answers no and then yes.
\<close>

theorem reconcile_twice_counterexample:
  "fst (TokensAt (snd (DrawAt (NewBucket 1 20 1000000000) 10000000000 20)) 7000000000) = 3
   \<and> fst (TokensAt (snd (TokensAt (snd (DrawAt (NewBucket 1 20 1000000000) 10000000000 20))
        7000000000)) 7000000000) = 9
   \<and> \<not> fst (CanDrawAt (snd (DrawAt (NewBucket 1 20 1000000000) 10000000000 20)) 7000000000 5)
   \<and> fst (CanDrawAt (snd (CanDrawAt (snd (DrawAt (NewBucket 1 20 1000000000) 10000000000 20))
        7000000000 5)) 7000000000 5)"
  by (simp add: bucket_simps)

section \<open>The interval utilities below \<open>2\<^sup>5\<^sup>3\<close> nanoseconds\<close>

text \<open>
  For a positive interval and instants less than \<open>2\<^sup>5\<^sup>3\<close> nanoseconds apart (about
  104 days), \<open>intervalCount\<close> is the truncated integer quotient of the absolute
  difference by the interval, the same for either order of the instants.
\<close>

theorem intervalCount_exact_below_2_53:
  assumes "0 <s interval" "\<bar>end - start\<bar> < 2 ^ 53"
  shows "sint (intervalCount start end interval) = \<bar>end - start\<bar> div sint interval
    \<and> intervalCount start end interval = intervalCount end start interval"
proof -
  have r: "0 < sint interval" using assms(1) by (simp add: word_sless_alt)
  have e: "intervalCount start end interval = word_of_int (\<bar>end - start\<bar> div sint interval)"
    using r assms(2) by (rule intervalCount_exact)
  have "\<bar>start - end\<bar> < 2 ^ 53" using assms(2) by simp
  with r have "intervalCount end start interval = word_of_int (\<bar>start - end\<bar> div sint interval)"
    by (rule intervalCount_exact)
  then have sym: "intervalCount start end interval = intervalCount end start interval"
    by (simp add: e abs_minus_commute)
  have "0 \<le> \<bar>end - start\<bar> div sint interval" using r by (simp add: pos_imp_zdiv_nonneg_iff)
  moreover have "\<bar>end - start\<bar> div sint interval \<le> \<bar>end - start\<bar> div 1"
    using r by (intro zdiv_mono2) simp_all
  ultimately have "- (2 ^ 63) \<le> \<bar>end - start\<bar> div sint interval"
    "\<bar>end - start\<bar> div sint interval < 2 ^ 63" using assms(2) by simp_all
  then have "sint (intervalCount start end interval) = \<bar>end - start\<bar> div sint interval"
    by (simp only: e sint_word_of_int64)
  with sym show ?thesis by simp
qed

text \<open>
  Three and a half seconds hold three whole seconds, in either order.
\<close>

theorem intervalCount_exact_below_2_53_witness:
  "(0 :: int64) <s 1000000000 \<and> \<bar>3500000000 - 0 :: int\<bar> < 2 ^ 53
   \<and> sint (intervalCount 0 3500000000 1000000000) = 3
   \<and> sint (intervalCount 3500000000 0 1000000000) = 3"
  using intervalCount_exact_below_2_53 [of 1000000000 3500000000 0]
    intervalCount_exact_below_2_53 [of 1000000000 0 3500000000]
  by (simp add: word_sless_alt)

text \<open>
  For a positive interval and an end that is not before the start and less than
  \<open>2\<^sup>5\<^sup>3\<close> nanoseconds after it, \<open>nextAfter\<close> returns the earliest instant
  \<open>start + k * interval\<close>, \<open>k \<ge> 0\<close>, that is strictly after the end.
\<close>

theorem nextAfter_below_2_53:
  assumes "0 <s interval" "start \<le> end" "end - start < 2 ^ 53"
  shows "nextAfter start end interval
      = start + ((end - start) div sint interval + 1) * sint interval
    \<and> end < nextAfter start end interval
    \<and> (\<forall>k\<ge>0. end < start + k * sint interval
          \<longrightarrow> nextAfter start end interval \<le> start + k * sint interval)"
proof -
  define d where "d = end - start"
  define r where "r = sint interval"
  define q where "q = d div r"
  have r: "0 < r" using assms(1) by (simp add: word_sless_alt r_def)
  have d: "0 \<le> d" "d < 2 ^ 53" using assms(2,3) by (simp_all add: d_def)
  have e: "end = start + d" by (simp add: d_def)
  have "sint (intervalCount start (start + d) interval * interval) = d div sint interval * sint interval"
    using r d unfolding r_def by (rule intervalCount_forward(3))
  then have md: "sint (intervalCount start end interval * interval) = q * r"
    by (simp only: e [symmetric] q_def r_def)
  have dm: "d = q * r + d mod r" by (simp add: q_def)
  have m: "0 \<le> d mod r" "d mod r < r" using r by simp_all
  have le: "q * r \<le> d" using dm m by linarith
  have lt: "d < (q + 1) * r" using dm m by (simp add: algebra_simps)
  have ta: "Time_Add start (intervalCount start end interval * interval) = start + q * r"
    by (simp add: Time_Add_def md)
  have na: "\<not> Time_After (start + q * r) end" using le by (simp add: Time_After_def e)
  have "Time_Add (start + q * r) interval = start + (q + 1) * r"
    by (simp add: Time_Add_def r_def algebra_simps)
  then have val: "nextAfter start end interval = start + (q + 1) * r"
    using na by (simp add: nextAfter_def Let_def ta)
  have after: "end < start + (q + 1) * r" using lt by (simp add: e)
  have least: "start + (q + 1) * r \<le> start + k * r" if "0 \<le> k" "end < start + k * r" for k
  proof -
    have "d < k * r" using that(2) by (simp add: e)
    with le have "q * r < k * r" by linarith
    then have "q < k" using r by (simp add: mult_less_cancel_right)
    then have "q + 1 \<le> k" by simp
    then have "(q + 1) * r \<le> k * r" using r by (intro mult_right_mono) simp_all
    then show ?thesis by simp
  qed
  show ?thesis
    unfolding val using after least by (simp add: q_def d_def r_def)
qed

text \<open>
  The two cases of the repository's test: the next boundary after one and a half
  seconds is at two seconds, the next one after two seconds is at three.
\<close>

theorem nextAfter_below_2_53_witness:
  "(0 :: int64) <s 1000000000 \<and> (0 :: int) \<le> 1500000000
   \<and> nextAfter 0 1500000000 1000000000 = 2000000000
   \<and> nextAfter 0 2000000000 1000000000 = 3000000000"
  using nextAfter_below_2_53 [of 1000000000 0 1500000000]
    nextAfter_below_2_53 [of 1000000000 0 2000000000]
  by (simp add: word_sless_alt)

section \<open>The interval utilities beyond \<open>2\<^sup>5\<^sup>3\<close> nanoseconds\<close>

text \<open>
  Claim C5 at two inputs. Between the instants 1000 and \<open>1000 + 2\<^sup>5\<^sup>3 + 1\<close> an
  interval of one nanosecond has passed \<open>2\<^sup>5\<^sup>3 + 1\<close> times; \<open>intervalCount\<close> returns
  \<open>2\<^sup>5\<^sup>3\<close>. In 9007199999999999 nanoseconds an interval of one second has passed
  9007199 times; \<open>intervalCount\<close> returns 9007200.
\<close>

theorem intervalCount_inexact_example:
  "sint (intervalCount 1000 9007199254741993 1) = 9007199254740992
   \<and> \<bar>9007199254741993 - 1000\<bar> div sint (1 :: int64) = (9007199254740993 :: int)
   \<and> sint (intervalCount 0 9007199999999999 1000000000) = 9007200
   \<and> \<bar>9007199999999999 - 0\<bar> div sint (1000000000 :: int64) = (9007199 :: int)"
  by (simp add: ic_undercount ic_overcount)

text \<open>
  Claim C6 at one input. With the start 1000, the end \<open>1000 + 2\<^sup>5\<^sup>3 + 1\<close> and an
  interval of one nanosecond, \<open>nextAfter\<close> returns the end itself, which is not
  strictly after the end.
\<close>

theorem nextAfter_not_after_example:
  "nextAfter 1000 9007199254741993 1 = 9007199254741993
   \<and> \<not> Time_After (nextAfter 1000 9007199254741993 1) 9007199254741993"
  by (simp add: nextAfter_def ic_undercount Time_Add_def Time_After_def Let_def)

section \<open>Purging the registry\<close>

lemma purge_loop_filter:
  "purge_loop now xs
     = map (\<lambda>(key, bucket). (key, snd (IsResetAt bucket (now key))))
         (filter (\<lambda>(key, bucket). \<not> fst (IsResetAt bucket (now key))) xs)"
proof (induction xs)
  case Nil
  show ?case by simp
next
  case (Cons x xs)
  obtain key bucket where x: "x = (key, bucket)" by (cases x)
  show ?case
    unfolding x using Cons.IH
    by (cases "IsResetAt bucket (now key)") (auto split: bool.splits)
qed

text \<open>
  \<open>Purge\<close> removes the entries whose bucket is reset when the loop visits it, and
  only those: every other entry stays, in place, with its bucket reconciled by the
  call of \<open>IsReset\<close>.
\<close>

theorem Purge_removes_reset_buckets:
  "buckets (snd (Purge now m))
     = map (\<lambda>(key, bucket). (key, snd (IsResetAt bucket (now key))))
         (filter (\<lambda>(key, bucket). \<not> fst (IsResetAt bucket (now key))) (buckets m))"
  by (simp add: Purge_def purge_loop_filter)

text \<open>The value that \<open>Purge\<close> returns does not depend on what it removes.\<close>

lemma Purge_result: "fst (Purge now m) = 0"
  by (simp add: Purge_def)

text \<open>
  Claim C4 at one input. A registry that holds one bucket, new and so reset: \<open>Purge\<close>
  removes the entry and returns 0, not 1.
\<close>

theorem Purge_returns_zero_example:
  "buckets (snd (getOrCreate (New 5 20 1000000000) ''client''))
     = [(''client'', NewBucket 5 20 1000000000)]
   \<and> Purge (\<lambda>_. 1000) (snd (getOrCreate (New 5 20 1000000000) ''client''))
     = (0, New 5 20 1000000000)"
  by (simp add: getOrCreate_def get_def set_bucket_def New_def Purge_def bucket_simps)

end
